theory Spec2Isabelle
  imports Main "HOL-Library.AList" "HOL-Library.Multiset"
begin

section \<open>soldr: the Subject evaluator (soldr.go)\<close>

text \<open>
  A shallow embedding of \<^verbatim>\<open>soldr.go\<close>. The Go code works by side effect: builder
  methods change the Subject behind a pointer and consult the path resolver, hooks and
  custom actions change the message in place, \<^verbatim>\<open>Evaluate\<close> calls hooks, policies and
  the fault handler. Here every function takes the Subject and returns the changed one
  together with the list of calls it made (its events), so that "is consulted", "is
  invoked" and "is evaluated" are statements about that list.
\<close>

subsection \<open>Values, errors and faults\<close>

text \<open>A Go \<^verbatim>\<open>error\<close> value is modelled by its message; \<open>None\<close> is the nil error.\<close>

type_synonym goerror = string

text \<open>
  The \<^verbatim>\<open>interface{}\<close> values the builders receive: the nil interface, scalars, and
  pointers to messages (\<open>DPtr None\<close> is a typed nil pointer such as the result of a
  getter on an absent nested message).
\<close>

datatype dynval = DNil | DStr string | DInt int | DBool bool | DPtr "nat option"

text \<open>\<^verbatim>\<open>i == nil || reflect.ValueOf(i).IsZero()\<close>\<close>

fun isZero :: "dynval \<Rightarrow> bool" where
  "isZero DNil = True"
| "isZero (DStr s) = (s = [])"
| "isZero (DInt n) = (n = 0)"
| "isZero (DBool b) = (\<not> b)"
| "isZero (DPtr p) = (p = None)"

definition prevalErr :: goerror where
  "prevalErr = ''the message failed prevalidation''"

definition postValErr :: goerror where
  "postValErr = ''the message failed postvalidation''"

text \<open>
  Modelled from the spec: the type \<^verbatim>\<open>Fault\<close> and its constructors \<^verbatim>\<open>RequestFault\<close> and
  \<^verbatim>\<open>FieldFault\<close> are not in the sources. A fault is a field path (empty for a fault of
  the whole request) and the underlying failure.
\<close>

record Fault =
  fault_field :: string
  fault_err :: goerror

definition RequestFault :: "goerror \<Rightarrow> Fault" where
  "RequestFault e = \<lparr>fault_field = [], fault_err = e\<rparr>"

definition FieldFault :: "string \<Rightarrow> goerror \<Rightarrow> Fault" where
  "FieldFault subject e = \<lparr>fault_field = subject, fault_err = e\<rparr>"

text \<open>
  The \<^verbatim>\<open>FaultHandler\<close> interface, by its one method \<^verbatim>\<open>ToError([]*Fault) error\<close>. The
  interface is not in the sources; a handler is taken as any function of that type, so
  it may answer nil. A field of this type holds \<open>None\<close> for the nil interface, on which
  a call of \<^verbatim>\<open>ToError\<close> is a nil dereference.
\<close>

type_synonym FaultHandler = "Fault list \<Rightarrow> goerror option"

text \<open>
  Modelled from the spec: \<^verbatim>\<open>newDefaultFaultHandler\<close> is not in the sources. The default
  handler concatenates every fault as \<^verbatim>\<open><path>: <message>\<close> into one combined error.
\<close>

definition newDefaultFaultHandler :: FaultHandler where
  "newDefaultFaultHandler fs =
     Some (concat (map (\<lambda>f. fault_field f @ '': '' @ fault_err f) fs))"

subsection \<open>Events\<close>

datatype event =
    Resolve string
  | InitHook
  | SuccessHook
  | PostHook
  | TraitEvaluated string
  | ActionEvaluated string
  | ActionInvoked string
  | ToError "Fault list"

fun isPolicyEvent :: "event \<Rightarrow> bool" where
  "isPolicyEvent (TraitEvaluated p) = True"
| "isPolicyEvent (ActionEvaluated p) = True"
| "isPolicyEvent (ActionInvoked p) = True"
| "isPolicyEvent e = False"

fun isEvaluation :: "event \<Rightarrow> bool" where
  "isEvaluation (TraitEvaluated p) = True"
| "isEvaluation (ActionEvaluated p) = True"
| "isEvaluation e = False"

fun isInvocation :: "event \<Rightarrow> bool" where
  "isInvocation (ActionInvoked p) = True"
| "isInvocation e = False"

fun isToError :: "event \<Rightarrow> bool" where
  "isToError (ToError fs) = True"
| "isToError e = False"

subsection \<open>Fields and policies\<close>

text \<open>
  Modelled from the spec: \<^verbatim>\<open>Field\<close>, \<^verbatim>\<open>NewField\<close> and the conditions \<^verbatim>\<open>MustBeSet\<close> and
  \<^verbatim>\<open>MustBeSetIfInMask\<close> are not in the sources. A Field is the path, the value the
  caller supplied, the mask membership and the presence measured at declaration;
  \<^verbatim>\<open>MustBeSet\<close> always triggers, \<^verbatim>\<open>MustBeSetIfInMask\<close> triggers when the field is in
  the mask.
\<close>

record Field =
  path :: string
  val :: dynval
  inMask :: bool
  isSet :: bool

definition NewField :: "string \<Rightarrow> dynval \<Rightarrow> bool \<Rightarrow> bool \<Rightarrow> Field" where
  "NewField p v m s = \<lparr>path = p, val = v, inMask = m, isSet = s\<rparr>"

definition MustBeSet :: "Field \<Rightarrow> bool" where
  "MustBeSet f = True"

definition MustBeSetIfInMask :: "Field \<Rightarrow> bool" where
  "MustBeSetIfInMask f = inMask f"

text \<open>
  A hook or custom action: \<^verbatim>\<open>func(ctx, msg) error\<close>. The message is behind a pointer, so
  the action may change it; the model returns the message as the action left it. A hook
  slot holds \<open>None\<close> for the nil function; the action of a custom rule is taken to be
  a function.
\<close>

type_synonym ('c, 'm) Action = "'c \<Rightarrow> 'm \<Rightarrow> 'm \<times> goerror option"

text \<open>
  Modelled from the spec: the policy types, \<^verbatim>\<open>NewPolicy\<close>, \<^verbatim>\<open>NotZeroTrait\<close>,
  \<^verbatim>\<open>NewActionPolicy\<close> and the policy manager are not in the sources. A policy binds a
  Field to a trigger condition and an effect; the manager keeps the trait policies and
  the action policies, each in declaration order.
\<close>

datatype Trait = NotZeroTrait

record Policy =
  tp_trait :: Trait
  tp_cond :: "Field \<Rightarrow> bool"
  tp_field :: Field

record ('c, 'm) ActionPolicy =
  ap_cond :: "Field \<Rightarrow> bool"
  ap_field :: Field
  ap_action :: "('c, 'm) Action"

definition NewPolicy :: "Trait \<Rightarrow> (Field \<Rightarrow> bool) \<Rightarrow> Field \<Rightarrow> Policy" where
  "NewPolicy t c f = \<lparr>tp_trait = t, tp_cond = c, tp_field = f\<rparr>"

definition NewActionPolicy ::
  "(Field \<Rightarrow> bool) \<Rightarrow> Field \<Rightarrow> ('c, 'm) Action \<Rightarrow> ('c, 'm) ActionPolicy" where
  "NewActionPolicy c f a = \<lparr>ap_cond = c, ap_field = f, ap_action = a\<rparr>"

record ('c, 'm) policyManager =
  traitPolicies :: "Policy list"
  actionPolicies :: "('c, 'm) ActionPolicy list"

definition NewPolicyManager :: "('c, 'm) policyManager" where
  "NewPolicyManager = \<lparr>traitPolicies = [], actionPolicies = []\<rparr>"

definition AddTraitPolicy :: "('c, 'm) policyManager \<Rightarrow> Policy \<Rightarrow> ('c, 'm) policyManager" where
  "AddTraitPolicy m p = m\<lparr>traitPolicies := traitPolicies m @ [p]\<rparr>"

definition AddActionPolicy ::
  "('c, 'm) policyManager \<Rightarrow> ('c, 'm) ActionPolicy \<Rightarrow> ('c, 'm) policyManager" where
  "AddActionPolicy m p = m\<lparr>actionPolicies := actionPolicies m @ [p]\<rparr>"

subsection \<open>The Subject\<close>

text \<open>
  The path resolver \<^verbatim>\<open>fieldProcessor\<close> is not in the sources; it is a parameter of the
  model: any function from a path and a message to "the field is set".
\<close>

record ('c, 'm) Subject =
  initAction :: "('c, 'm) Action option"
  successAction :: "('c, 'm) Action option"
  postAction :: "('c, 'm) Action option"
  pm :: "('c, 'm) policyManager"
  fh :: "FaultHandler option"
  paths :: "(string \<rightharpoonup> unit) option"
  fieldProcessor :: "string \<Rightarrow> 'm \<Rightarrow> bool"
  message :: 'm

text \<open>An empty or absent mask gives the nil map, otherwise every path is a key.\<close>

definition getPathsFromMask :: "string list \<Rightarrow> (string \<rightharpoonup> unit) option" where
  "getPathsFromMask fieldMask =
     (if fieldMask = [] then None
      else Some (fold (\<lambda>f ps. ps(f \<mapsto> ())) fieldMask Map.empty))"

definition ForSubject ::
  "(string \<Rightarrow> 'm \<Rightarrow> bool) \<Rightarrow> 'm \<Rightarrow> string list \<Rightarrow> ('c, 'm) Subject" where
  "ForSubject newFieldProcessor subject fieldMask =
     \<lparr>initAction = None, successAction = None, postAction = None,
      pm = NewPolicyManager, fh = None,
      paths = getPathsFromMask fieldMask,
      fieldProcessor = newFieldProcessor,
      message = subject\<rparr>"

definition isFieldInMask :: "('c, 'm) Subject \<Rightarrow> string \<Rightarrow> bool" where
  "isFieldInMask s p =
     (case paths s of
        None \<Rightarrow> False
      | Some ps \<Rightarrow> (case ps p of None \<Rightarrow> False | Some u \<Rightarrow> True))"

text \<open>
  \<^verbatim>\<open>isFieldSet\<close>: an action rule asks the resolver; a value rule computes
  \<^verbatim>\<open>ifs := isZero(i)\<close>, asks the resolver when \<^verbatim>\<open>!ifs\<close>, and returns \<^verbatim>\<open>ifs\<close> otherwise.
\<close>

definition isFieldSet ::
  "('c, 'm) Subject \<Rightarrow> dynval \<Rightarrow> string \<Rightarrow> bool \<Rightarrow> bool \<times> event list" where
  "isFieldSet p i pth isForAction =
     (if isForAction then (fieldProcessor p pth (message p), [Resolve pth])
      else
        (let ifs = isZero i in
         if \<not> ifs then (fieldProcessor p pth (message p), [Resolve pth])
         else (ifs, [])))"

definition AssertNonZero ::
  "('c, 'm) Subject \<Rightarrow> string \<Rightarrow> dynval \<Rightarrow> ('c, 'm) Subject \<times> event list" where
  "AssertNonZero p pth v =
     (let inM = isFieldInMask p pth;
          (present, ev) = isFieldSet p v pth False;
          field = NewField pth v inM present;
          traitPolicy = NewPolicy NotZeroTrait MustBeSet field
      in (p\<lparr>pm := AddTraitPolicy (pm p) traitPolicy\<rparr>, ev))"

definition AssertNonZeroWhenInMask ::
  "('c, 'm) Subject \<Rightarrow> string \<Rightarrow> dynval \<Rightarrow> ('c, 'm) Subject \<times> event list" where
  "AssertNonZeroWhenInMask p pth v =
     (let inM = isFieldInMask p pth;
          (present, ev) = isFieldSet p v pth False;
          field = NewField pth v inM present;
          traitPolicy = NewPolicy NotZeroTrait MustBeSetIfInMask field
      in (p\<lparr>pm := AddTraitPolicy (pm p) traitPolicy\<rparr>, ev))"

definition AssertCustom ::
  "('c, 'm) Subject \<Rightarrow> string \<Rightarrow> ('c, 'm) Action \<Rightarrow> ('c, 'm) Subject \<times> event list" where
  "AssertCustom p pth action =
     (let inM = isFieldInMask p pth;
          (present, ev) = isFieldSet p DNil pth True;
          field = NewField pth DNil inM present;
          actionPolicy = NewActionPolicy MustBeSet field action
      in (p\<lparr>pm := AddActionPolicy (pm p) actionPolicy\<rparr>, ev))"

definition AssertCustomWhenInMask ::
  "('c, 'm) Subject \<Rightarrow> string \<Rightarrow> ('c, 'm) Action \<Rightarrow> ('c, 'm) Subject \<times> event list" where
  "AssertCustomWhenInMask p pth action =
     (let inM = isFieldInMask p pth;
          (present, ev) = isFieldSet p DNil pth True;
          field = NewField pth DNil inM present;
          actionPolicy = NewActionPolicy MustBeSetIfInMask field action
      in (p\<lparr>pm := AddActionPolicy (pm p) actionPolicy\<rparr>, ev))"

definition BeforeValidation ::
  "('c, 'm) Subject \<Rightarrow> ('c, 'm) Action option \<Rightarrow> ('c, 'm) Subject" where
  "BeforeValidation p act = p\<lparr>initAction := act\<rparr>"

definition OnSuccess ::
  "('c, 'm) Subject \<Rightarrow> ('c, 'm) Action option \<Rightarrow> ('c, 'm) Subject" where
  "OnSuccess p act = p\<lparr>successAction := act\<rparr>"

definition CustomFaultHandler ::
  "('c, 'm) Subject \<Rightarrow> FaultHandler option \<Rightarrow> ('c, 'm) Subject" where
  "CustomFaultHandler s e = s\<lparr>fh := e\<rparr>"

subsection \<open>The policy manager\<close>

text \<open>
  What \<^verbatim>\<open>ExecuteAllPolicies\<close> returns is ranged over with a key and a value in
  \<^verbatim>\<open>Evaluate\<close>: a Go map from field path to failure. It is kept as an association list
  with distinct keys; writing a key that is present replaces its value.
\<close>

type_synonym faultMap = "(string \<times> goerror) list"

text \<open>
  Modelled from the spec: \<^verbatim>\<open>ExecuteAllPolicies\<close> is not in the sources. For each trait
  policy: if its trigger condition holds and the field is not set, a fault is recorded
  at that path with the generic prevalidation error. For each action policy: if its
  trigger condition holds the action is invoked with the context and the message, and a
  failure it returns is recorded at that path. Every policy is evaluated, whatever the
  others did; the last fault written for a path is the one that stays. Trait policies
  run first, then action policies, each kind in declaration order.
\<close>

definition executeTrait :: "Policy \<Rightarrow> faultMap \<Rightarrow> faultMap" where
  "executeTrait p fm =
     (if tp_cond p (tp_field p) \<and> \<not> isSet (tp_field p)
      then AList.update (path (tp_field p)) prevalErr fm
      else fm)"

fun executeTraitPolicies :: "Policy list \<Rightarrow> faultMap \<Rightarrow> faultMap \<times> event list" where
  "executeTraitPolicies [] fm = (fm, [])"
| "executeTraitPolicies (p # ps) fm =
     (case executeTraitPolicies ps (executeTrait p fm) of
        (fm', ev) \<Rightarrow> (fm', TraitEvaluated (path (tp_field p)) # ev))"

fun executeActionPolicies ::
  "'c \<Rightarrow> ('c, 'm) ActionPolicy list \<Rightarrow> 'm \<Rightarrow> faultMap \<Rightarrow> 'm \<times> faultMap \<times> event list" where
  "executeActionPolicies ctx [] msg fm = (msg, fm, [])"
| "executeActionPolicies ctx (p # ps) msg fm =
     (if ap_cond p (ap_field p) then
        (case ap_action p ctx msg of
           (msg', r) \<Rightarrow>
             (case executeActionPolicies ctx ps msg'
                     (case r of None \<Rightarrow> fm
                      | Some e \<Rightarrow> AList.update (path (ap_field p)) e fm) of
                (msg'', fm', ev) \<Rightarrow>
                  (msg'', fm',
                   ActionEvaluated (path (ap_field p))
                     # ActionInvoked (path (ap_field p)) # ev)))
      else
        (case executeActionPolicies ctx ps msg fm of
           (msg'', fm', ev) \<Rightarrow> (msg'', fm', ActionEvaluated (path (ap_field p)) # ev)))"

definition ExecuteAllPolicies ::
  "('c, 'm) policyManager \<Rightarrow> 'c \<Rightarrow> 'm \<Rightarrow> 'm \<times> faultMap \<times> event list" where
  "ExecuteAllPolicies m ctx msg =
     (case executeTraitPolicies (traitPolicies m) [] of
        (fm, ev) \<Rightarrow>
          (case executeActionPolicies ctx (actionPolicies m) msg fm of
             (msg', fm', ev') \<Rightarrow> (msg', fm', ev @ ev')))"




subsection \<open>Hooks and Evaluate\<close>

definition init ::
  "('c, 'm) Subject \<Rightarrow> 'c \<Rightarrow> Fault option \<times> ('c, 'm) Subject \<times> event list" where
  "init s ctx =
     (case initAction s of
        None \<Rightarrow> (None, s, [])
      | Some act \<Rightarrow>
          (case act ctx (message s) of
             (msg, None) \<Rightarrow> (None, s\<lparr>message := msg\<rparr>, [InitHook])
           | (msg, Some e) \<Rightarrow> (Some (RequestFault e), s\<lparr>message := msg\<rparr>, [InitHook])))"

definition onSuccess ::
  "('c, 'm) Subject \<Rightarrow> 'c \<Rightarrow> Fault option \<times> ('c, 'm) Subject \<times> event list" where
  "onSuccess s ctx =
     (case successAction s of
        None \<Rightarrow> (None, s, [])
      | Some act \<Rightarrow>
          (case act ctx (message s) of
             (msg, None) \<Rightarrow> (None, s\<lparr>message := msg\<rparr>, [SuccessHook])
           | (msg, Some e) \<Rightarrow> (Some (RequestFault e), s\<lparr>message := msg\<rparr>, [SuccessHook])))"

definition postValidation ::
  "('c, 'm) Subject \<Rightarrow> 'c \<Rightarrow> Fault option \<times> ('c, 'm) Subject \<times> event list" where
  "postValidation s ctx =
     (case postAction s of
        None \<Rightarrow> (None, s, [])
      | Some act \<Rightarrow>
          (case act ctx (message s) of
             (msg, None) \<Rightarrow> (None, s\<lparr>message := msg\<rparr>, [PostHook])
           | (msg, Some e) \<Rightarrow> (Some (RequestFault e), s\<lparr>message := msg\<rparr>, [PostHook])))"

text \<open>
  \<^verbatim>\<open>err\<close> installs the default handler when none is set, returns nil for no faults and
  the handler's \<^verbatim>\<open>ToError\<close> of the whole list otherwise.
\<close>

definition err ::
  "('c, 'm) Subject \<Rightarrow> Fault list \<Rightarrow> goerror option \<times> ('c, 'm) Subject \<times> event list" where
  "err s f =
     (let h = (case fh s of None \<Rightarrow> newDefaultFaultHandler | Some h' \<Rightarrow> h');
          s' = s\<lparr>fh := Some h\<rparr>
      in if f = [] then (None, s', []) else (h f, s', [ToError f]))"

text \<open>The handler \<^verbatim>\<open>err\<close> calls: the one that is set, the default one otherwise.\<close>

definition handler :: "('c, 'm) Subject \<Rightarrow> FaultHandler" where
  "handler s = (case fh s of None \<Rightarrow> newDefaultFaultHandler | Some h \<Rightarrow> h)"

text \<open>
  Go leaves the order in which \<^verbatim>\<open>range\<close> visits a map unspecified, and the runtime
  varies it from one loop to the next. The order is a parameter of the model: a ranking
  of the keys, the entries being visited by ascending rank. Every enumeration of a map
  is the one of some ranking, since the keys of a map are distinct (see
  \<open>rangeMap_enumerations\<close> below).
\<close>

definition rangeMap :: "(string \<Rightarrow> nat) \<Rightarrow> faultMap \<Rightarrow> faultMap" where
  "rangeMap rank fm = sort_key (\<lambda>kv. rank (fst kv)) fm"

text \<open>The ranking under which the range visits the entries in the order of a given list.\<close>

fun rankIn :: "(string \<times> 'v) list \<Rightarrow> string \<Rightarrow> nat" where
  "rankIn [] k = 0"
| "rankIn (kv # xs) k = (if fst kv = k then 0 else Suc (rankIn xs k))"

text \<open>The loop of \<^verbatim>\<open>Evaluate\<close> over the faults of the policies, in the order of the range.\<close>

definition fieldFaults :: "(string \<Rightarrow> nat) \<Rightarrow> faultMap \<Rightarrow> Fault list" where
  "fieldFaults rank allFaults =
     map (\<lambda>(subject, fault). FieldFault subject fault) (rangeMap rank allFaults)"

text \<open>
  What a call of \<^verbatim>\<open>Evaluate\<close> does: it returns an error or nil, or it panics (a method
  call on the nil \<^verbatim>\<open>FaultHandler\<close> interface). The outcome also keeps the fault list the
  call collected, the Subject as the call left it and the events of the call.
\<close>

datatype Result = Panic | Return "goerror option"

record ('c, 'm) Outcome =
  result :: Result
  collected :: "Fault list"
  final :: "('c, 'm) Subject"
  trace :: "event list"

definition Evaluate ::
  "(string \<Rightarrow> nat) \<Rightarrow> ('c, 'm) Subject \<Rightarrow> 'c \<Rightarrow> ('c, 'm) Outcome" where
  "Evaluate rank s ctx =
     (case init s ctx of
        (Some e, s1, ev1) \<Rightarrow>
          (case fh s1 of
             None \<Rightarrow> \<lparr>result = Panic, collected = [e], final = s1, trace = ev1\<rparr>
           | Some h \<Rightarrow>
               \<lparr>result = Return (h [e]), collected = [e], final = s1,
                trace = ev1 @ [ToError [e]]\<rparr>)
      | (None, s1, ev1) \<Rightarrow>
          (case ExecuteAllPolicies (pm s1) ctx (message s1) of
             (msg2, allFaults, ev2) \<Rightarrow>
               (let faults = fieldFaults rank allFaults
                in case (if faults = [] then onSuccess (s1\<lparr>message := msg2\<rparr>) ctx
                         else (None, s1\<lparr>message := msg2\<rparr>, [])) of
                     (successFault, s3, ev3) \<Rightarrow>
                       (let faults' = (case successFault of None \<Rightarrow> faults
                                       | Some f \<Rightarrow> faults @ [f])
                        in case err s3 faults' of
                             (r, s4, ev4) \<Rightarrow>
                               \<lparr>result = Return r, collected = faults', final = s4,
                                trace = ev1 @ ev2 @ ev3 @ ev4\<rparr>))))"

text \<open>\<^verbatim>\<open>E\<close> is shorthand for \<^verbatim>\<open>Evaluate\<close>.\<close>

definition E :: "(string \<Rightarrow> nat) \<Rightarrow> ('c, 'm) Subject \<Rightarrow> 'c \<Rightarrow> ('c, 'm) Outcome" where
  "E rank s ctx = Evaluate rank s ctx"

subsection \<open>Builder chains\<close>

text \<open>
  A Subject is built by \<^verbatim>\<open>ForSubject\<close> followed by a chain of builder calls. A chain is a
  list of calls, applied from left to right; the events are those of all the calls.
\<close>

datatype ('c, 'm) Call =
    CallAssertNonZero string dynval
  | CallAssertNonZeroWhenInMask string dynval
  | CallAssertCustom string "('c, 'm) Action"
  | CallAssertCustomWhenInMask string "('c, 'm) Action"
  | CallBeforeValidation "('c, 'm) Action option"
  | CallOnSuccess "('c, 'm) Action option"
  | CallCustomFaultHandler "FaultHandler option"

fun call :: "('c, 'm) Subject \<Rightarrow> ('c, 'm) Call \<Rightarrow> ('c, 'm) Subject \<times> event list" where
  "call p (CallAssertNonZero pth v) = AssertNonZero p pth v"
| "call p (CallAssertNonZeroWhenInMask pth v) = AssertNonZeroWhenInMask p pth v"
| "call p (CallAssertCustom pth a) = AssertCustom p pth a"
| "call p (CallAssertCustomWhenInMask pth a) = AssertCustomWhenInMask p pth a"
| "call p (CallBeforeValidation a) = (BeforeValidation p a, [])"
| "call p (CallOnSuccess a) = (OnSuccess p a, [])"
| "call p (CallCustomFaultHandler h) = (CustomFaultHandler p h, [])"

fun chain :: "('c, 'm) Subject \<Rightarrow> ('c, 'm) Call list \<Rightarrow> ('c, 'm) Subject \<times> event list" where
  "chain p [] = (p, [])"
| "chain p (c # cs) =
     (case call p c of (p', ev) \<Rightarrow> (case chain p' cs of (p'', ev') \<Rightarrow> (p'', ev @ ev')))"

text \<open>
  The calls that declare a trait rule and those that declare an action rule, the path a
  call names, and whether the call is one of the two builders whose rule always
  triggers.
\<close>

fun isTraitCall :: "('c, 'm) Call \<Rightarrow> bool" where
  "isTraitCall (CallAssertNonZero pth v) = True"
| "isTraitCall (CallAssertNonZeroWhenInMask pth v) = True"
| "isTraitCall c = False"

fun isActionCall :: "('c, 'm) Call \<Rightarrow> bool" where
  "isActionCall (CallAssertCustom pth a) = True"
| "isActionCall (CallAssertCustomWhenInMask pth a) = True"
| "isActionCall c = False"

fun callPath :: "('c, 'm) Call \<Rightarrow> string" where
  "callPath (CallAssertNonZero pth v) = pth"
| "callPath (CallAssertNonZeroWhenInMask pth v) = pth"
| "callPath (CallAssertCustom pth a) = pth"
| "callPath (CallAssertCustomWhenInMask pth a) = pth"
| "callPath c = []"

fun unconditional :: "('c, 'm) Call \<Rightarrow> bool" where
  "unconditional (CallAssertNonZero pth v) = True"
| "unconditional (CallAssertCustom pth a) = True"
| "unconditional c = False"

subsection \<open>Example requests\<close>

text \<open>
  The requests of the repository's tests, cut down to three fields of the user: a
  message, a resolver for its paths, and the hooks and actions the tests declare.
\<close>

record User =
  user_id :: string
  first_name :: string
  last_name :: string

definition resolveUser :: "string \<Rightarrow> User \<Rightarrow> bool" where
  "resolveUser pth msg =
     (if pth = ''user.id'' then user_id msg \<noteq> []
      else if pth = ''user.first_name'' then first_name msg \<noteq> []
      else if pth = ''user.last_name'' then last_name msg \<noteq> []
      else False)"

definition bob :: User where
  "bob = \<lparr>user_id = [], first_name = ''Bob'', last_name = []\<rparr>"

definition authorizeUpdate :: "(unit, User) Action" where
  "authorizeUpdate ctx msg =
     (msg, if user_id msg \<noteq> ''abc123'' then Some ''can only update user abc123'' else None)"

definition doLogic :: "(unit, User) Action" where
  "doLogic ctx msg = (if last_name msg = [] then msg\<lparr>last_name := ''NA''\<rparr> else msg, None)"

definition cannotBeBob :: "(unit, User) Action" where
  "cannotBeBob ctx msg = (msg, if first_name msg = ''Bob'' then Some ''cannot be bob'' else None)"

definition needsLastName :: "(unit, User) Action" where
  "needsLastName ctx msg = (msg, if last_name msg = [] then Some ''no last name'' else None)"

definition auditFails :: "(unit, User) Action" where
  "auditFails ctx msg = (msg, Some ''audit log unavailable'')"

definition silentHandler :: FaultHandler where
  "silentHandler fs = None"

definition countHandler :: FaultHandler where
  "countHandler fs = Some (replicate (length fs) (CHR ''!''))"

definition shortFirst :: "string \<Rightarrow> nat" where
  "shortFirst k = length k"

definition longFirst :: "string \<Rightarrow> nat" where
  "longFirst k = 100 - length k"

text \<open>
  A rule on the last name, declared with the value of the request, which is empty.
\<close>

definition scenarioA :: "(unit, User) Subject \<times> event list" where
  "scenarioA = AssertNonZero (ForSubject resolveUser bob []) ''user.last_name'' (DStr [])"

text \<open>
  A custom rule and an authorisation hook that refuses the request; no fault handler is
  set, as in the tests.
\<close>

definition beforeFails :: "(unit, User) Subject" where
  "beforeFails =
     BeforeValidation
       (fst (AssertCustom (ForSubject resolveUser bob []) ''user.first_name'' cannotBeBob))
       (Some authorizeUpdate)"



text \<open>Two custom rules that both fail, with the default handler and with two others.\<close>

definition twoFailing :: "(unit, User) Subject" where
  "twoFailing =
     fst (chain (ForSubject resolveUser bob [])
       [CallAssertCustom ''user.first_name'' cannotBeBob,
        CallAssertCustom ''user.last_name'' needsLastName])"

definition silenced :: "(unit, User) Subject" where
  "silenced = CustomFaultHandler twoFailing (Some silentHandler)"

definition counted :: "(unit, User) Subject" where
  "counted = CustomFaultHandler twoFailing (Some countHandler)"

text \<open>A rule that passes and a success hook that fails.\<close>

definition successFails :: "(unit, User) Subject" where
  "successFails =
     fst (chain (ForSubject resolveUser bob [])
       [CallAssertNonZero ''user.first_name'' (DStr ''Bob''),
        CallOnSuccess (Some auditFails)])"

text \<open>The same rule and a success hook that fills in the missing last name.\<close>

definition successMutates :: "(unit, User) Subject" where
  "successMutates =
     fst (chain (ForSubject resolveUser bob [])
       [CallAssertNonZero ''user.first_name'' (DStr ''Bob''),
        CallOnSuccess (Some doLogic)])"

definition successFailsSilenced :: "(unit, User) Subject" where
  "successFailsSilenced = CustomFaultHandler successFails (Some silentHandler)"

section \<open>Properties\<close>

lemmas builder_defs =
  ForSubject_def getPathsFromMask_def isFieldInMask_def isFieldSet_def
  AssertNonZero_def AssertNonZeroWhenInMask_def AssertCustom_def AssertCustomWhenInMask_def
  BeforeValidation_def OnSuccess_def CustomFaultHandler_def
  NewField_def NewPolicy_def NewActionPolicy_def NewPolicyManager_def
  AddTraitPolicy_def AddActionPolicy_def MustBeSet_def MustBeSetIfInMask_def

lemmas evaluate_defs =
  Evaluate_def init_def onSuccess_def err_def handler_def ExecuteAllPolicies_def
  executeTrait_def rangeMap_def fieldFaults_def FieldFault_def RequestFault_def
  newDefaultFaultHandler_def prevalErr_def

subsection \<open>Hooks keep the rest of the Subject\<close>

lemma init_keeps:
  "init s ctx = (r, s1, ev) \<Longrightarrow>
     pm s1 = pm s \<and> fh s1 = fh s \<and> successAction s1 = successAction s
     \<and> postAction s1 = postAction s"
  by (auto simp: init_def split: option.splits prod.splits)

lemma init_events: "filter isPolicyEvent (snd (snd (init s ctx))) = []"
  by (simp add: init_def split: option.splits prod.splits)

subsection \<open>The policy manager evaluates every policy\<close>

lemma executeTraitPolicies_events:
  "snd (executeTraitPolicies ps fm) = map (\<lambda>p. TraitEvaluated (path (tp_field p))) ps"
  by (induction ps arbitrary: fm) (simp_all add: case_prod_unfold)


lemma executeActionPolicies_invocations:
  "filter isInvocation (snd (snd (executeActionPolicies ctx ps msg fm)))
     = map (\<lambda>p. ActionInvoked (path (ap_field p))) (filter (\<lambda>p. ap_cond p (ap_field p)) ps)"
  by (induction ps arbitrary: msg fm) (simp_all add: case_prod_unfold)

lemma executeActionPolicies_policy_events:
  "e \<in> set (snd (snd (executeActionPolicies ctx ps msg fm))) \<Longrightarrow> isPolicyEvent e"
  by (induction ps arbitrary: msg fm) (auto simp: case_prod_unfold split: if_splits)


lemma ExecuteAllPolicies_invocations:
  "filter isInvocation (snd (snd (ExecuteAllPolicies m ctx msg)))
     = map (\<lambda>p. ActionInvoked (path (ap_field p)))
         (filter (\<lambda>p. ap_cond p (ap_field p)) (actionPolicies m))"
  by (simp add: ExecuteAllPolicies_def case_prod_unfold executeTraitPolicies_events
        executeActionPolicies_invocations)

lemma ExecuteAllPolicies_policy_events:
  "e \<in> set (snd (snd (ExecuteAllPolicies m ctx msg))) \<Longrightarrow> isPolicyEvent e"
  by (auto simp: ExecuteAllPolicies_def case_prod_unfold executeTraitPolicies_events
        dest: executeActionPolicies_policy_events)

subsection \<open>The range over the fault map\<close>

lemma mset_rangeMap: "mset (rangeMap rank fm) = mset fm"
  by (simp add: rangeMap_def)

lemma rangeMap_Nil: "(rangeMap rank fm = []) = (fm = [])"
  using mset_rangeMap [of rank fm] by (metis mset_zero_iff)

text \<open>
  The fault map of the policy manager has distinct keys, the range under any ranking is
  an enumeration of the map, and every enumeration of the map is the range under some
  ranking: the parameter stands for exactly the orders that Go allows.
\<close>

lemma executeTraitPolicies_distinct:
  "distinct (map fst fm) \<Longrightarrow> distinct (map fst (fst (executeTraitPolicies ps fm)))"
  by (induction ps arbitrary: fm) (simp_all add: case_prod_unfold executeTrait_def distinct_update)

lemma executeActionPolicies_distinct:
  "distinct (map fst fm) \<Longrightarrow>
     distinct (map fst (fst (snd (executeActionPolicies ctx ps msg fm))))"
  by (induction ps arbitrary: fm msg)
     (simp_all add: case_prod_unfold distinct_update split: option.splits)

lemma ExecuteAllPolicies_distinct:
  "distinct (map fst (fst (snd (ExecuteAllPolicies m ctx msg))))"
  by (simp add: ExecuteAllPolicies_def case_prod_unfold executeTraitPolicies_distinct
        executeActionPolicies_distinct)

lemma rankIn_inj:
  "x \<in> set xs \<Longrightarrow> y \<in> set xs \<Longrightarrow> rankIn xs (fst x) = rankIn xs (fst y) \<Longrightarrow> fst x = fst y"
  by (induction xs) (auto split: if_splits)

lemma sorted_rankIn:
  "distinct (map fst xs) \<Longrightarrow> sorted (map (\<lambda>kv. rankIn xs (fst kv)) xs)"
proof (induction xs)
  case Nil
  then show ?case by simp
next
  case (Cons kv xs)
  have e: "map (\<lambda>x. if fst kv = fst x then 0 else Suc (rankIn xs (fst x))) xs
             = map (\<lambda>x. Suc (rankIn xs (fst x))) xs"
    using Cons.prems by (intro map_cong refl) (auto simp: image_iff)
  have "sorted (map (\<lambda>x. rankIn xs (fst x)) xs)"
    using Cons by simp
  then have "sorted (map (\<lambda>x. Suc (rankIn xs (fst x))) xs)"
    by (simp add: sorted_map)
  then show ?case
    by (simp add: e)
qed

lemma filter_eq_distinct:
  "distinct ys \<Longrightarrow> k \<in> set ys \<Longrightarrow> filter (\<lambda>x. x = k) ys = [k]"
  by (induction ys) (auto simp: filter_empty_conv)

lemma key_determines_entry:
  "distinct (map fst ys) \<Longrightarrow> x \<in> set ys \<Longrightarrow> y \<in> set ys \<Longrightarrow> fst x = fst y \<Longrightarrow> x = y"
  by (induction ys) (auto simp: image_iff)

lemma rangeMap_any_enumeration:
  assumes d: "distinct (map fst fm)" and m: "mset xs = mset fm"
  shows "rangeMap (rankIn xs) fm = xs"
  unfolding rangeMap_def
proof (rule properties_for_sort_key)
  show "mset xs = mset fm" by (rule m)
  have "mset (map fst xs) = mset (map fst fm)"
    unfolding mset_map m ..
  from mset_eq_imp_distinct_iff [OF this] have dx: "distinct (map fst xs)"
    using d by simp
  have s: "set fm = set xs"
    using mset_eq_setD [OF m] by simp
  show "sorted (map (\<lambda>kv. rankIn xs (fst kv)) xs)"
    by (rule sorted_rankIn [OF dx])
  fix k assume k: "k \<in> set xs"
  have p: "(rankIn xs (fst k) = rankIn xs (fst x)) = (x = k)" if "x \<in> set xs" for x
  proof
    assume "rankIn xs (fst k) = rankIn xs (fst x)"
    then have "fst x = fst k"
      using rankIn_inj [OF k that] by simp
    then show "x = k"
      by (rule key_determines_entry [OF dx that k])
  next
    assume "x = k"
    then show "rankIn xs (fst k) = rankIn xs (fst x)" by simp
  qed
  have "filter (\<lambda>x. rankIn xs (fst k) = rankIn xs (fst x)) xs = filter (\<lambda>x. x = k) xs"
    by (rule filter_cong) (simp_all add: p)
  moreover have "filter (\<lambda>x. rankIn xs (fst k) = rankIn xs (fst x)) fm = filter (\<lambda>x. x = k) fm"
    by (rule filter_cong) (simp_all add: p s)
  moreover have "filter (\<lambda>x. x = k) xs = [k]"
    using dx k by (simp add: filter_eq_distinct distinct_map)
  moreover have "filter (\<lambda>x. x = k) fm = [k]"
    using d k s by (simp add: filter_eq_distinct distinct_map)
  ultimately show "filter (\<lambda>x. rankIn xs (fst k) = rankIn xs (fst x)) xs
          = filter (\<lambda>x. rankIn xs (fst k) = rankIn xs (fst x)) fm"
    by simp
qed

lemma rangeMap_enumerations:
  assumes "ExecuteAllPolicies m ctx msg = (msg', allFaults, ev)"
  shows "(\<exists>rank. rangeMap rank allFaults = xs) = (mset xs = mset allFaults)"
proof
  assume "\<exists>rank. rangeMap rank allFaults = xs"
  then show "mset xs = mset allFaults"
    using mset_rangeMap by blast
next
  assume e: "mset xs = mset allFaults"
  have "distinct (map fst allFaults)"
    using ExecuteAllPolicies_distinct [of m ctx msg] assms by simp
  then have "rangeMap (rankIn xs) allFaults = xs"
    using e by (rule rangeMap_any_enumeration)
  then show "\<exists>rank. rangeMap rank allFaults = xs"
    by (rule exI [of _ "rankIn xs"])
qed

subsection \<open>Evaluate, symbolically\<close>

text \<open>The two ways through Evaluate.\<close>

lemma Evaluate_init_fails:
  assumes "init s ctx = (Some e, s1, ev1)"
  shows "Evaluate rank s ctx =
           (case fh s of
              None \<Rightarrow> \<lparr>result = Panic, collected = [e], final = s1, trace = ev1\<rparr>
            | Some h \<Rightarrow> \<lparr>result = Return (h [e]), collected = [e], final = s1,
                          trace = ev1 @ [ToError [e]]\<rparr>)"
  using assms init_keeps [OF assms] by (simp add: Evaluate_def)

lemma fieldFaults_Nil: "(fieldFaults rank fm = []) = (fm = [])"
  by (simp add: fieldFaults_def rangeMap_Nil)

lemma mset_fieldFaults:
  "mset (fieldFaults rank fm) = image_mset (\<lambda>(subject, fault). FieldFault subject fault) (mset fm)"
  unfolding fieldFaults_def mset_map mset_rangeMap ..

lemma Evaluate_init_passes:
  assumes "init s ctx = (None, s1, ev1)"
      and "ExecuteAllPolicies (pm s) ctx (message s1) = (msg2, allFaults, ev2)"
  shows "Evaluate rank s ctx =
           (case (if allFaults = [] then onSuccess (s1\<lparr>message := msg2\<rparr>) ctx
                  else (None, s1\<lparr>message := msg2\<rparr>, [])) of
              (successFault, s3, ev3) \<Rightarrow>
                (let faults' = (case successFault of None \<Rightarrow> fieldFaults rank allFaults
                                | Some f \<Rightarrow> fieldFaults rank allFaults @ [f])
                 in \<lparr>result = Return (if faults' = [] then None else handler s faults'),
                     collected = faults',
                     final = s3\<lparr>fh := Some (handler s)\<rparr>,
                     trace = ev1 @ ev2 @ ev3 @ (if faults' = [] then [] else [ToError faults'])\<rparr>))"
proof (cases "allFaults = []")
  case True
  then show ?thesis
    using assms init_keeps [OF assms(1)]
    by (auto simp: Evaluate_def Let_def fieldFaults_Nil err_def handler_def onSuccess_def
          split: option.splits prod.splits)
next
  case False
  then show ?thesis
    using assms init_keeps [OF assms(1)]
    by (simp add: Evaluate_def Let_def fieldFaults_Nil err_def handler_def)
qed

subsection \<open>The field mask\<close>

lemma getPathsFromMask_lookup:
  "fold (\<lambda>f ps. ps(f \<mapsto> ())) fieldMask m p = (if p \<in> set fieldMask then Some () else m p)"
  by (induction fieldMask arbitrary: m) auto

lemma isFieldInMask_ForSubject:
  "isFieldInMask (ForSubject fp msg fieldMask) p = (p \<in> set fieldMask)"
  by (cases fieldMask)
     (simp_all add: isFieldInMask_def ForSubject_def getPathsFromMask_def
        getPathsFromMask_lookup)

text \<open>
  C9. The mask handed to \<^verbatim>\<open>ForSubject\<close> matters only as a set: \<^verbatim>\<open>isFieldInMask\<close> is
  membership of the path in the supplied paths, so two masks with the same elements, in
  any order and with any repetition, give the same answer for every path.
\<close>

theorem isFieldInMask_mask_as_set:
  assumes "set fieldMask = set fieldMask'"
  shows "isFieldInMask (ForSubject fp msg fieldMask) p
           = isFieldInMask (ForSubject fp msg fieldMask') p
         \<and> isFieldInMask (ForSubject fp msg fieldMask) p = (p \<in> set fieldMask)"
  using assms by (simp add: isFieldInMask_ForSubject)

theorem isFieldInMask_mask_as_set_witness:
  "set [''first_name'', ''last_name''] = set [''last_name'', ''first_name'', ''last_name'']
   \<and> isFieldInMask (ForSubject resolveUser bob [''first_name'', ''last_name''] :: (unit, User) Subject)
         ''last_name''
       = isFieldInMask
           (ForSubject resolveUser bob [''last_name'', ''first_name'', ''last_name''] :: (unit, User) Subject)
           ''last_name''
   \<and> isFieldInMask (ForSubject resolveUser bob [''first_name'', ''last_name''] :: (unit, User) Subject)
         ''last_name''"
proof -
  have h: "set [''first_name'', ''last_name''] = set [''last_name'', ''first_name'', ''last_name'']"
    by auto
  show ?thesis
    using h isFieldInMask_mask_as_set [OF h, of resolveUser bob "''last_name''"]
    by simp
qed

subsection \<open>Presence at declaration\<close>

lemma isFieldSet_zero_value: "isZero v \<Longrightarrow> isFieldSet p v pth False = (True, [])"
  by (simp add: isFieldSet_def)

lemma isFieldSet_nonzero_value:
  "\<not> isZero v \<Longrightarrow>
     isFieldSet p v pth False = (fieldProcessor p pth (message p), [Resolve pth])"
  by (simp add: isFieldSet_def)

lemma AssertNonZero_zero_value:
  assumes "isZero v"
  shows "isSet (tp_field (last (traitPolicies (pm (fst (AssertNonZero p pth v))))))"
    and "snd (AssertNonZero p pth v) = []"
    and "isSet (tp_field (last (traitPolicies (pm (fst (AssertNonZeroWhenInMask p pth v))))))"
    and "snd (AssertNonZeroWhenInMask p pth v) = []"
  using assms
  by (simp_all add: AssertNonZero_def AssertNonZeroWhenInMask_def isFieldSet_def NewField_def
        NewPolicy_def AddTraitPolicy_def)

text \<open>
  C1. A rule declared by \<^verbatim>\<open>AssertNonZero\<close> with a zero value should record the field as
  not set, without asking the resolver. The code does not ask the resolver, but it
  records the field as set: \<^verbatim>\<open>isFieldSet\<close> returns \<^verbatim>\<open>ifs\<close>, which is \<^verbatim>\<open>isZero(i)\<close>, that
  is true. Here the last name of the request is empty, the rule is declared with that
  empty value, the resolver itself says the field is not set, and the Field is recorded
  as set.
\<close>

theorem AssertNonZero_zero_value_recorded_set:
  "isSet (tp_field (last (traitPolicies (pm (fst scenarioA))))) = True
   \<and> snd scenarioA = []
   \<and> resolveUser ''user.last_name'' bob = False"
  by (simp add: scenarioA_def builder_defs resolveUser_def bob_def)

text \<open>With the policy manager of the spec, the rule then lets the empty value pass.\<close>

lemma scenarioA_returns_nil: "result (Evaluate rank (fst scenarioA) ()) = Return None"
  by (simp add: scenarioA_def builder_defs resolveUser_def bob_def evaluate_defs)

text \<open>
  C6. A rule declared by \<^verbatim>\<open>AssertCustom\<close> or \<^verbatim>\<open>AssertCustomWhenInMask\<close> records as
  presence what the path resolver answers for the path on the message of the Subject,
  for every path, and the declaration asks the resolver exactly once, for that path.
\<close>

theorem AssertCustom_presence_from_resolver:
  "isSet (ap_field (last (actionPolicies (pm (fst (AssertCustom p pth act))))))
     = fieldProcessor p pth (message p)
   \<and> snd (AssertCustom p pth act) = [Resolve pth]
   \<and> isSet (ap_field (last (actionPolicies (pm (fst (AssertCustomWhenInMask p pth act))))))
     = fieldProcessor p pth (message p)
   \<and> snd (AssertCustomWhenInMask p pth act) = [Resolve pth]"
  by (simp add: AssertCustom_def AssertCustomWhenInMask_def isFieldSet_def NewField_def
        NewActionPolicy_def AddActionPolicy_def)

subsection \<open>The pre-validation hook\<close>

text \<open>
  C2. When the \<^verbatim>\<open>BeforeValidation\<close> hook fails, \<^verbatim>\<open>Evaluate\<close> should run no policy and
  return the fault handler's error for the one request fault. It runs no policy, but it
  calls \<^verbatim>\<open>s.fh.ToError\<close> before any default handler is installed (only \<^verbatim>\<open>err\<close> installs
  it): on a Subject without a custom handler the call panics.
\<close>

theorem Evaluate_init_failure_without_handler_panics:
  "fh beforeFails = None
   \<and> fst (init beforeFails ()) = Some (RequestFault ''can only update user abc123'')
   \<and> result (Evaluate shortFirst beforeFails ()) = Panic
   \<and> trace (Evaluate shortFirst beforeFails ()) = [InitHook]"
  by (simp add: beforeFails_def builder_defs resolveUser_def bob_def
        cannotBeBob_def authorizeUpdate_def shortFirst_def evaluate_defs)

text \<open>With a handler set, the failure of the hook is returned as the claim says.\<close>

lemma Evaluate_init_failure_with_handler:
  assumes "init s ctx = (Some e, s1, ev1)" and "fh s = Some h"
  shows "result (Evaluate rank s ctx) = Return (h [e])"
    and "collected (Evaluate rank s ctx) = [e]"
    and "filter isPolicyEvent (trace (Evaluate rank s ctx)) = []"
  using assms init_events [of s ctx] by (simp_all add: Evaluate_init_fails)

subsection \<open>The post-validation hook\<close>

lemma init_postAction:
  "init s ctx = (r, s1, ev1) \<Longrightarrow>
     init (s\<lparr>postAction := pa\<rparr>) ctx = (r, s1\<lparr>postAction := pa\<rparr>, ev1)"
  by (auto simp: init_def split: option.splits prod.splits)

lemma onSuccess_postAction:
  "onSuccess (s\<lparr>message := m\<rparr>) ctx = (r, s3, ev3) \<Longrightarrow>
     onSuccess (s\<lparr>postAction := pa, message := m\<rparr>) ctx = (r, s3\<lparr>postAction := pa\<rparr>, ev3)"
  by (auto simp: onSuccess_def split: option.splits prod.splits)

lemma Evaluate_postAction:
  "Evaluate rank (s\<lparr>postAction := pa\<rparr>) ctx
     = (Evaluate rank s ctx)\<lparr>final := (final (Evaluate rank s ctx))\<lparr>postAction := pa\<rparr>\<rparr>"
proof -
  obtain r s1 ev1 where i: "init s ctx = (r, s1, ev1)"
    by (cases "init s ctx") auto
  note i' = init_postAction [OF i, of pa]
  show ?thesis
  proof (cases r)
    case (Some e)
    then show ?thesis
      using i i' by (simp add: Evaluate_init_fails split: option.splits)
  next
    case None
    obtain msg2 allFaults ev2
      where x: "ExecuteAllPolicies (pm s) ctx (message s1) = (msg2, allFaults, ev2)"
      by (cases "ExecuteAllPolicies (pm s) ctx (message s1)") auto
    obtain r3 s3 ev3 where o: "onSuccess (s1\<lparr>message := msg2\<rparr>) ctx = (r3, s3, ev3)"
      by (cases "onSuccess (s1\<lparr>message := msg2\<rparr>) ctx") auto
    note o' = onSuccess_postAction [OF o, of pa]
    have h: "handler (s\<lparr>postAction := pa\<rparr>) = handler s"
      by (simp add: handler_def)
    show ?thesis
      using i [unfolded None] i' [unfolded None] x o o' h
      by (subst Evaluate_init_passes
            [of "s\<lparr>postAction := pa\<rparr>" ctx "s1\<lparr>postAction := pa\<rparr>" ev1 msg2 allFaults ev2])
         (simp_all add: Evaluate_init_passes [of s ctx s1 ev1 msg2 allFaults ev2] Let_def)
  qed
qed

lemma Evaluate_no_PostHook: "PostHook \<notin> set (trace (Evaluate rank s ctx))"
proof -
  obtain r s1 ev1 where i: "init s ctx = (r, s1, ev1)"
    by (cases "init s ctx") auto
  have ev1: "PostHook \<notin> set ev1"
    using i by (auto simp: init_def split: option.splits prod.splits)
  show ?thesis
  proof (cases r)
    case (Some e)
    then show ?thesis
      using i ev1 by (simp add: Evaluate_init_fails split: option.splits)
  next
    case None
    obtain msg2 allFaults ev2
      where x: "ExecuteAllPolicies (pm s) ctx (message s1) = (msg2, allFaults, ev2)"
      by (cases "ExecuteAllPolicies (pm s) ctx (message s1)") auto
    have ev2: "PostHook \<notin> set ev2"
      using ExecuteAllPolicies_policy_events [of PostHook "pm s" ctx "message s1"] x by auto
    show ?thesis
      using i None x ev1 ev2
      by (auto simp: Evaluate_init_passes onSuccess_def Let_def
            split: option.splits prod.splits if_splits)
  qed
qed

text \<open>
  C8. \<^verbatim>\<open>Evaluate\<close> never invokes the post-validation hook: no call of it is among the
  events of any evaluation, and whatever \<^verbatim>\<open>postAction\<close> is set, the result, the
  collected faults, the message left behind and the events are the same.
\<close>

theorem Evaluate_never_runs_postAction:
  "result (Evaluate rank (s\<lparr>postAction := pa\<rparr>) ctx) = result (Evaluate rank s ctx)
   \<and> collected (Evaluate rank (s\<lparr>postAction := pa\<rparr>) ctx) = collected (Evaluate rank s ctx)
   \<and> message (final (Evaluate rank (s\<lparr>postAction := pa\<rparr>) ctx))
       = message (final (Evaluate rank s ctx))
   \<and> trace (Evaluate rank (s\<lparr>postAction := pa\<rparr>) ctx) = trace (Evaluate rank s ctx)
   \<and> PostHook \<notin> set (trace (Evaluate rank s ctx))"
  by (simp add: Evaluate_postAction Evaluate_no_PostHook)

subsection \<open>What the policy manager writes\<close>






subsection \<open>The policy events of an evaluation\<close>

lemma isEvaluation_init: "filter isEvaluation (snd (snd (init s ctx))) = []"
  by (simp add: init_def split: option.splits prod.splits)

lemma isInvocation_init: "filter isInvocation (snd (snd (init s ctx))) = []"
  by (simp add: init_def split: option.splits prod.splits)

lemma isEvaluation_onSuccess: "filter isEvaluation (snd (snd (onSuccess s ctx))) = []"
  by (simp add: onSuccess_def split: option.splits prod.splits)

lemma isInvocation_onSuccess: "filter isInvocation (snd (snd (onSuccess s ctx))) = []"
  by (simp add: onSuccess_def split: option.splits prod.splits)


lemma Evaluate_init_fails_no_policy:
  assumes "init s ctx = (Some f, s1, ev1)"
  shows "filter isPolicyEvent (trace (Evaluate rank s ctx)) = []"
    and "collected (Evaluate rank s ctx) = [f]"
  using assms init_events [of s ctx]
  by (simp_all add: Evaluate_init_fails split: option.splits)

lemma Evaluate_policy_trace:
  assumes "init s ctx = (None, s1, ev1)"
      and "ExecuteAllPolicies (pm s) ctx (message s1) = (msg2, allFaults, ev2)"
  shows "filter isEvaluation (trace (Evaluate rank s ctx)) = filter isEvaluation ev2"
    and "filter isInvocation (trace (Evaluate rank s ctx)) = filter isInvocation ev2"
    and "set (fieldFaults rank allFaults) \<subseteq> set (collected (Evaluate rank s ctx))"
proof -
  obtain r3 s3 ev3 where o: "onSuccess (s1\<lparr>message := msg2\<rparr>) ctx = (r3, s3, ev3)"
    by (cases "onSuccess (s1\<lparr>message := msg2\<rparr>) ctx") auto
  have e1: "filter isEvaluation ev1 = []" "filter isInvocation ev1 = []"
    using isEvaluation_init [of s ctx] isInvocation_init [of s ctx] assms(1) by simp_all
  have e3: "filter isEvaluation ev3 = []" "filter isInvocation ev3 = []"
    using isEvaluation_onSuccess [of "s1\<lparr>message := msg2\<rparr>" ctx]
      isInvocation_onSuccess [of "s1\<lparr>message := msg2\<rparr>" ctx] o by simp_all
  show "filter isEvaluation (trace (Evaluate rank s ctx)) = filter isEvaluation ev2"
    using e1 e3 o by (simp add: Evaluate_init_passes [OF assms] Let_def split: option.splits)
  show "filter isInvocation (trace (Evaluate rank s ctx)) = filter isInvocation ev2"
    using e1 e3 o by (simp add: Evaluate_init_passes [OF assms] Let_def split: option.splits)
  show "set (fieldFaults rank allFaults) \<subseteq> set (collected (Evaluate rank s ctx))"
    using o by (auto simp: Evaluate_init_passes [OF assms] Let_def split: option.splits)
qed

lemma Evaluate_invocations:
  "filter isInvocation (trace (Evaluate rank s ctx))
     = (if fst (init s ctx) = None
        then map (\<lambda>p. ActionInvoked (path (ap_field p)))
               (filter (\<lambda>p. ap_cond p (ap_field p)) (actionPolicies (pm s)))
        else [])"
proof -
  obtain r s1 ev1 where i: "init s ctx = (r, s1, ev1)"
    by (cases "init s ctx") auto
  obtain msg2 allFaults ev2
    where x: "ExecuteAllPolicies (pm s) ctx (message s1) = (msg2, allFaults, ev2)"
    by (cases "ExecuteAllPolicies (pm s) ctx (message s1)") auto
  show ?thesis
  proof (cases r)
    case None
    have "filter isInvocation ev2
            = map (\<lambda>p. ActionInvoked (path (ap_field p)))
                (filter (\<lambda>p. ap_cond p (ap_field p)) (actionPolicies (pm s)))"
      using ExecuteAllPolicies_invocations [of "pm s" ctx "message s1"] x by simp
    then show ?thesis
      using i None Evaluate_policy_trace(2) [OF i [unfolded None] x, of rank] by simp
  next
    case (Some f)
    have "filter isPolicyEvent (trace (Evaluate rank s ctx)) = []"
      by (rule Evaluate_init_fails_no_policy [OF i [unfolded Some]])
    moreover have "isPolicyEvent e" if "isInvocation e" for e
      using that by (cases e) simp_all
    ultimately have "filter isInvocation (trace (Evaluate rank s ctx)) = []"
      by (auto simp: filter_empty_conv)
    then show ?thesis
      using i Some by simp
  qed
qed

subsection \<open>Every policy is evaluated\<close>




subsection \<open>The returned error\<close>

lemma isToError_init: "filter isToError (snd (snd (init s ctx))) = []"
  by (simp add: init_def split: option.splits prod.splits)

lemma isToError_onSuccess: "filter isToError (snd (snd (onSuccess s ctx))) = []"
  by (simp add: onSuccess_def split: option.splits prod.splits)

lemma isToError_policy: "isPolicyEvent e \<Longrightarrow> \<not> isToError e"
  by (cases e) simp_all

lemma isToError_ExecuteAllPolicies:
  "filter isToError (snd (snd (ExecuteAllPolicies m ctx msg))) = []"
  using ExecuteAllPolicies_policy_events [of _ m ctx msg] isToError_policy
  by (auto simp: filter_empty_conv)

lemma Evaluate_Panic:
  "(result (Evaluate rank s ctx) = Panic) = (fst (init s ctx) \<noteq> None \<and> fh s = None)"
proof -
  obtain r s1 ev1 where i: "init s ctx = (r, s1, ev1)"
    by (cases "init s ctx") auto
  show ?thesis
  proof (cases r)
    case (Some e)
    then show ?thesis
      using i by (simp add: Evaluate_init_fails split: option.splits)
  next
    case None
    obtain msg2 allFaults ev2
      where x: "ExecuteAllPolicies (pm s) ctx (message s1) = (msg2, allFaults, ev2)"
      by (cases "ExecuteAllPolicies (pm s) ctx (message s1)") auto
    show ?thesis
      using i None
      by (simp add: Evaluate_init_passes [OF i [unfolded None] x] Let_def case_prod_unfold)
  qed
qed

text \<open>
  C4. Whenever \<^verbatim>\<open>Evaluate\<close> returns, it returns nil if the collected fault list is empty
  and otherwise the result of one \<^verbatim>\<open>ToError\<close> call, on the whole list, of the fault
  handler (the default one when none is set): no other \<^verbatim>\<open>ToError\<close> call is made. So it
  returns nil exactly when the list is empty provided the handler returns an error for
  every non-empty list.
\<close>

theorem Evaluate_returns_handler_of_all_faults:
  assumes "result (Evaluate rank s ctx) \<noteq> Panic"
  shows "result (Evaluate rank s ctx)
           = Return (if collected (Evaluate rank s ctx) = [] then None
                     else handler s (collected (Evaluate rank s ctx)))
         \<and> filter isToError (trace (Evaluate rank s ctx))
           = (if collected (Evaluate rank s ctx) = [] then []
              else [ToError (collected (Evaluate rank s ctx))])
         \<and> ((\<forall>fs. fs \<noteq> [] \<longrightarrow> handler s fs \<noteq> None) \<longrightarrow>
              (result (Evaluate rank s ctx) = Return None)
                = (collected (Evaluate rank s ctx) = []))"
proof -
  obtain r s1 ev1 where i: "init s ctx = (r, s1, ev1)"
    by (cases "init s ctx") auto
  have e1: "filter isToError ev1 = []"
    using isToError_init [of s ctx] i by simp
  show ?thesis
  proof (cases r)
    case (Some e)
    then obtain h where "fh s = Some h"
      using assms i Evaluate_Panic [of rank s ctx] by auto
    then show ?thesis
      using i Some e1 by (simp add: Evaluate_init_fails handler_def)
  next
    case None
    obtain msg2 allFaults ev2
      where x: "ExecuteAllPolicies (pm s) ctx (message s1) = (msg2, allFaults, ev2)"
      by (cases "ExecuteAllPolicies (pm s) ctx (message s1)") auto
    obtain r3 s3 ev3
      where o: "(if allFaults = [] then onSuccess (s1\<lparr>message := msg2\<rparr>) ctx
                 else (None, s1\<lparr>message := msg2\<rparr>, [])) = (r3, s3, ev3)"
      by (cases "if allFaults = [] then onSuccess (s1\<lparr>message := msg2\<rparr>) ctx
                 else (None, s1\<lparr>message := msg2\<rparr>, [])") auto
    have e2: "filter isToError ev2 = []"
      using isToError_ExecuteAllPolicies [of "pm s" ctx "message s1"] x by simp
    have e3: "filter isToError ev3 = []"
      using isToError_onSuccess [of "s1\<lparr>message := msg2\<rparr>" ctx] o
      by (cases "allFaults = []") auto
    show ?thesis
      using e1 e2 e3
      by (simp add: Evaluate_init_passes [OF i [unfolded None] x] o Let_def)
  qed
qed

theorem Evaluate_returns_handler_of_all_faults_witness:
  "result (Evaluate shortFirst twoFailing ()) \<noteq> Panic
   \<and> result (Evaluate shortFirst twoFailing ())
       = Return (handler twoFailing (collected (Evaluate shortFirst twoFailing ())))
   \<and> filter isToError (trace (Evaluate shortFirst twoFailing ()))
       = [ToError [FieldFault ''user.last_name'' ''no last name'',
                   FieldFault ''user.first_name'' ''cannot be bob'']]
   \<and> result (Evaluate shortFirst twoFailing ()) \<noteq> Return None"
proof -
  have h: "result (Evaluate shortFirst twoFailing ()) \<noteq> Panic"
    by (simp add: Evaluate_Panic twoFailing_def builder_defs init_def)
  have g: "\<forall>fs. fs \<noteq> [] \<longrightarrow> handler twoFailing fs \<noteq> None"
    by (simp add: handler_def twoFailing_def builder_defs newDefaultFaultHandler_def)
  have c: "collected (Evaluate shortFirst twoFailing ())
             = [FieldFault ''user.last_name'' ''no last name'',
                FieldFault ''user.first_name'' ''cannot be bob'']"
    by (simp add: twoFailing_def builder_defs resolveUser_def bob_def cannotBeBob_def
          needsLastName_def shortFirst_def evaluate_defs Let_def)
  show ?thesis
    using h g c Evaluate_returns_handler_of_all_faults [OF h]
    by simp
qed

text \<open>
  The claim as stated fails for a handler that answers nil: the fault list is not empty
  and \<^verbatim>\<open>Evaluate\<close> returns nil.
\<close>

theorem silent_handler_returns_nil_for_faults:
  "collected (Evaluate shortFirst silenced ())
     = [FieldFault ''user.last_name'' ''no last name'',
        FieldFault ''user.first_name'' ''cannot be bob'']
   \<and> result (Evaluate shortFirst silenced ()) = Return None"
  by (simp add: silenced_def twoFailing_def builder_defs resolveUser_def bob_def
        cannotBeBob_def needsLastName_def silentHandler_def shortFirst_def evaluate_defs Let_def)

subsection \<open>The success hook\<close>

lemma SuccessHook_init: "SuccessHook \<notin> set (snd (snd (init s ctx)))"
  by (simp add: init_def split: option.splits prod.splits)

lemma SuccessHook_ExecuteAllPolicies:
  "SuccessHook \<notin> set (snd (snd (ExecuteAllPolicies m ctx msg)))"
  using ExecuteAllPolicies_policy_events [of SuccessHook m ctx msg] by auto

text \<open>
  C5. If the success hook is invoked, then the pre-validation hook did not fail and the
  policies produced no fault. If the hook then returns an error, the collected faults
  are exactly the request fault of that error (no field fault is added) and \<^verbatim>\<open>Evaluate\<close>
  returns the fault handler's \<^verbatim>\<open>ToError\<close> of that one fault; if it returns nil,
  \<^verbatim>\<open>Evaluate\<close> returns nil. Either way the message is left as the hook left it.
\<close>

theorem onSuccess_only_without_field_faults:
  assumes "init s ctx = (r, s1, ev1)"
      and "ExecuteAllPolicies (pm s) ctx (message s1) = (msg2, allFaults, ev2)"
      and "SuccessHook \<in> set (trace (Evaluate rank s ctx))"
  shows "r = None \<and> allFaults = []
         \<and> (\<exists>act. successAction s = Some act
              \<and> (case act ctx msg2 of
                    (msg3, None) \<Rightarrow>
                      collected (Evaluate rank s ctx) = []
                      \<and> result (Evaluate rank s ctx) = Return None
                      \<and> message (final (Evaluate rank s ctx)) = msg3
                  | (msg3, Some e) \<Rightarrow>
                      collected (Evaluate rank s ctx) = [RequestFault e]
                      \<and> result (Evaluate rank s ctx) = Return (handler s [RequestFault e])
                      \<and> message (final (Evaluate rank s ctx)) = msg3))"
proof -
  have e1: "SuccessHook \<notin> set ev1"
    using SuccessHook_init [of s ctx] assms(1) by simp
  have e2: "SuccessHook \<notin> set ev2"
    using SuccessHook_ExecuteAllPolicies [of "pm s" ctx "message s1"] assms(2) by simp
  have r: "r = None"
  proof (cases r)
    case (Some e)
    then show ?thesis
      using assms(1,3) e1 by (simp add: Evaluate_init_fails split: option.splits)
  qed simp
  note i = assms(1) [unfolded r]
  note k = init_keeps [OF i]
  have a: "allFaults = []"
  proof (rule ccontr)
    assume "allFaults \<noteq> []"
    then show False
      using assms(3) e1 e2
      by (simp add: Evaluate_init_passes [OF i assms(2)] Let_def fieldFaults_Nil)
  qed
  show ?thesis
    using assms(3) e1 e2 r a k
    by (auto simp: Evaluate_init_passes [OF i assms(2)] Let_def onSuccess_def fieldFaults_def
          rangeMap_def split: option.splits prod.splits)
qed

theorem onSuccess_only_without_field_faults_witness:
  "init successFails () = (None, successFails, [])
   \<and> ExecuteAllPolicies (pm successFails) () bob = (bob, [], [TraitEvaluated ''user.first_name''])
   \<and> SuccessHook \<in> set (trace (Evaluate shortFirst successFails ()))
   \<and> collected (Evaluate shortFirst successFails ()) = [RequestFault ''audit log unavailable'']
   \<and> result (Evaluate shortFirst successFails ())
       = Return (handler successFails [RequestFault ''audit log unavailable''])
   \<and> result (Evaluate shortFirst successFails ()) = Return (Some '': audit log unavailable'')
   \<and> SuccessHook \<in> set (trace (Evaluate shortFirst successMutates ()))
   \<and> result (Evaluate shortFirst successMutates ()) = Return None
   \<and> message (final (Evaluate shortFirst successMutates ())) = bob\<lparr>last_name := ''NA''\<rparr>"
proof -
  have i: "init successFails () = (None, successFails, [])"
    by (simp add: successFails_def builder_defs init_def)
  have m: "message successFails = bob"
    by (simp add: successFails_def builder_defs)
  have x: "ExecuteAllPolicies (pm successFails) () (message successFails)
             = (bob, [], [TraitEvaluated ''user.first_name''])"
    by (simp add: successFails_def builder_defs resolveUser_def bob_def evaluate_defs)
  have t: "SuccessHook \<in> set (trace (Evaluate shortFirst successFails ()))"
    by (simp add: successFails_def builder_defs resolveUser_def bob_def auditFails_def
          shortFirst_def evaluate_defs Let_def)
  have a: "successAction successFails = Some auditFails"
    by (simp add: successFails_def builder_defs)
  have h: "handler successFails [RequestFault ''audit log unavailable'']
             = Some '': audit log unavailable''"
    by (simp add: successFails_def builder_defs handler_def newDefaultFaultHandler_def
          RequestFault_def)
  have fails: "collected (Evaluate shortFirst successFails ()) = [RequestFault ''audit log unavailable'']
      \<and> result (Evaluate shortFirst successFails ())
       = Return (handler successFails [RequestFault ''audit log unavailable''])"
    using a onSuccess_only_without_field_faults [OF i x t]
    by (simp add: auditFails_def)
  have i': "init successMutates () = (None, successMutates, [])"
    by (simp add: successMutates_def builder_defs init_def)
  have x': "ExecuteAllPolicies (pm successMutates) () (message successMutates)
             = (bob, [], [TraitEvaluated ''user.first_name''])"
    by (simp add: successMutates_def builder_defs resolveUser_def bob_def evaluate_defs)
  have t': "SuccessHook \<in> set (trace (Evaluate shortFirst successMutates ()))"
    by (simp add: successMutates_def builder_defs resolveUser_def bob_def doLogic_def
          shortFirst_def evaluate_defs Let_def)
  have a': "successAction successMutates = Some doLogic"
    by (simp add: successMutates_def builder_defs)
  have d: "doLogic () bob = (bob\<lparr>last_name := ''NA''\<rparr>, None)"
    by (simp add: doLogic_def bob_def)
  have mutates: "result (Evaluate shortFirst successMutates ()) = Return None
      \<and> message (final (Evaluate shortFirst successMutates ())) = bob\<lparr>last_name := ''NA''\<rparr>"
    using a' d onSuccess_only_without_field_faults [OF i' x' t']
    by simp
  show ?thesis
    using i x [unfolded m] t fails h t' mutates by simp
qed

text \<open>
  The claim as stated fails for a handler that answers nil: the success hook is invoked
  and returns an error, and \<^verbatim>\<open>Evaluate\<close> returns nil.
\<close>

theorem silent_handler_hides_success_failure:
  "SuccessHook \<in> set (trace (Evaluate shortFirst successFailsSilenced ()))
   \<and> collected (Evaluate shortFirst successFailsSilenced ())
       = [RequestFault ''audit log unavailable'']
   \<and> result (Evaluate shortFirst successFailsSilenced ()) = Return None"
  by (simp add: successFailsSilenced_def successFails_def builder_defs resolveUser_def
        bob_def auditFails_def silentHandler_def shortFirst_def evaluate_defs Let_def)

subsection \<open>Determinism\<close>

lemma mset_le_one: "mset xs = mset ys \<Longrightarrow> length xs \<le> 1 \<Longrightarrow> xs = ys"
proof (cases xs)
  case Nil
  assume "mset xs = mset ys"
  with Nil show ?thesis by simp
next
  case (Cons x xs')
  assume a: "mset xs = mset ys" and b: "length xs \<le> 1"
  from b Cons have "xs = [x]" by simp
  with a show ?thesis by (simp add: mset_single_iff_right)
qed

lemma fieldFaults_empty: "fieldFaults rank [] = []"
  by (simp add: fieldFaults_def rangeMap_def)

lemma Evaluate_no_field_faults:
  assumes "init s ctx = (None, s1, ev1)"
      and "ExecuteAllPolicies (pm s) ctx (message s1) = (msg2, [], ev2)"
      and "onSuccess (s1\<lparr>message := msg2\<rparr>) ctx = (r3, s3, ev3)"
  shows "Evaluate rank s ctx =
           \<lparr>result = Return (case r3 of None \<Rightarrow> None | Some f \<Rightarrow> handler s [f]),
            collected = (case r3 of None \<Rightarrow> [] | Some f \<Rightarrow> [f]),
            final = s3\<lparr>fh := Some (handler s)\<rparr>,
            trace = ev1 @ ev2 @ ev3 @ (case r3 of None \<Rightarrow> [] | Some f \<Rightarrow> [ToError [f]])\<rparr>"
  by (cases r3) (simp_all add: Evaluate_init_passes [OF assms(1,2)] assms(3) fieldFaults_empty Let_def)

lemma Evaluate_field_faults:
  assumes "init s ctx = (None, s1, ev1)"
      and "ExecuteAllPolicies (pm s) ctx (message s1) = (msg2, allFaults, ev2)"
      and "allFaults \<noteq> []"
  shows "Evaluate rank s ctx =
           \<lparr>result = Return (handler s (fieldFaults rank allFaults)),
            collected = fieldFaults rank allFaults,
            final = s1\<lparr>message := msg2, fh := Some (handler s)\<rparr>,
            trace = ev1 @ ev2 @ [ToError (fieldFaults rank allFaults)]\<rparr>"
  using assms(3) by (simp add: Evaluate_init_passes [OF assms(1,2)] Let_def fieldFaults_Nil)

text \<open>
  C7. Two evaluations of the same Subject that differ only in the order in which the
  range visits the fault map collect the same faults up to their order, leave the same
  Subject and message, and make the same calls of hooks, policies and actions. They
  return the same result whenever the fault handler does not depend on the order of the
  faults, and are equal altogether when at most one fault is collected.
\<close>

theorem Evaluate_deterministic_up_to_fault_order:
  "mset (collected (Evaluate r1 s ctx)) = mset (collected (Evaluate r2 s ctx))
   \<and> final (Evaluate r1 s ctx) = final (Evaluate r2 s ctx)
   \<and> filter (\<lambda>e. \<not> isToError e) (trace (Evaluate r1 s ctx))
       = filter (\<lambda>e. \<not> isToError e) (trace (Evaluate r2 s ctx))
   \<and> ((\<forall>xs ys. mset xs = mset ys \<longrightarrow> handler s xs = handler s ys) \<longrightarrow>
        result (Evaluate r1 s ctx) = result (Evaluate r2 s ctx))
   \<and> (length (collected (Evaluate r1 s ctx)) \<le> 1 \<longrightarrow>
        Evaluate r1 s ctx = Evaluate r2 s ctx)"
proof -
  obtain r s1 ev1 where i: "init s ctx = (r, s1, ev1)"
    by (cases "init s ctx") auto
  show ?thesis
  proof (cases r)
    case (Some e)
    have "Evaluate r1 s ctx = Evaluate r2 s ctx"
      using i Some by (simp add: Evaluate_init_fails)
    then show ?thesis by simp
  next
    case None
    note i' = i [unfolded None]
    obtain msg2 allFaults ev2
      where x: "ExecuteAllPolicies (pm s) ctx (message s1) = (msg2, allFaults, ev2)"
      by (cases "ExecuteAllPolicies (pm s) ctx (message s1)") auto
    show ?thesis
    proof (cases "allFaults = []")
      case True
      obtain r3 s3 ev3 where o: "onSuccess (s1\<lparr>message := msg2\<rparr>) ctx = (r3, s3, ev3)"
        by (cases "onSuccess (s1\<lparr>message := msg2\<rparr>) ctx") auto
      have "Evaluate r1 s ctx = Evaluate r2 s ctx"
        using Evaluate_no_field_faults [OF i' x [unfolded True] o] by simp
      then show ?thesis by simp
    next
      case False
      note E = Evaluate_field_faults [OF i' x False]
      have m: "mset (fieldFaults r1 allFaults) = mset (fieldFaults r2 allFaults)"
        by (simp add: mset_fieldFaults)
      have l: "length (fieldFaults r1 allFaults) \<le> 1 \<Longrightarrow>
                 fieldFaults r1 allFaults = fieldFaults r2 allFaults"
        by (rule mset_le_one [OF m])
      have f1: "mset (collected (Evaluate r1 s ctx)) = mset (collected (Evaluate r2 s ctx))"
        using m by (simp add: E)
      have f2: "final (Evaluate r1 s ctx) = final (Evaluate r2 s ctx)"
        by (simp add: E)
      have f3: "filter (\<lambda>e. \<not> isToError e) (trace (Evaluate r1 s ctx))
                  = filter (\<lambda>e. \<not> isToError e) (trace (Evaluate r2 s ctx))"
        by (simp add: E)
      have f4: "(\<forall>xs ys. mset xs = mset ys \<longrightarrow> handler s xs = handler s ys) \<longrightarrow>
                  result (Evaluate r1 s ctx) = result (Evaluate r2 s ctx)"
      proof
        assume "\<forall>xs ys. mset xs = mset ys \<longrightarrow> handler s xs = handler s ys"
        then have "handler s (fieldFaults r1 allFaults) = handler s (fieldFaults r2 allFaults)"
          using m by (elim allE impE) assumption+
        then show "result (Evaluate r1 s ctx) = result (Evaluate r2 s ctx)"
          by (simp add: E)
      qed
      have f5: "length (collected (Evaluate r1 s ctx)) \<le> 1 \<longrightarrow>
                  Evaluate r1 s ctx = Evaluate r2 s ctx"
        using l by (simp add: E)
      show ?thesis
        by (intro conjI) (fact f1 f2 f3 f4 f5)+
    qed
  qed
qed

theorem Evaluate_deterministic_up_to_fault_order_witness:
  "mset (collected (Evaluate shortFirst counted ())) = mset (collected (Evaluate longFirst counted ()))
   \<and> collected (Evaluate shortFirst counted ()) \<noteq> collected (Evaluate longFirst counted ())
   \<and> result (Evaluate shortFirst counted ()) = result (Evaluate longFirst counted ())
   \<and> result (Evaluate shortFirst counted ()) = Return (Some ''!!'')
   \<and> length (collected (Evaluate shortFirst successFails ())) \<le> 1
   \<and> Evaluate shortFirst successFails () = Evaluate longFirst successFails ()"
proof -
  have g: "\<forall>xs ys. mset xs = mset ys \<longrightarrow> handler counted xs = handler counted ys"
    by (auto simp: handler_def counted_def CustomFaultHandler_def countHandler_def
          dest: mset_eq_length)
  have c: "collected (Evaluate shortFirst counted ()) \<noteq> collected (Evaluate longFirst counted ())"
          "result (Evaluate shortFirst counted ()) = Return (Some ''!!'')"
    by (simp_all add: counted_def twoFailing_def builder_defs resolveUser_def bob_def
          cannotBeBob_def needsLastName_def countHandler_def shortFirst_def longFirst_def evaluate_defs Let_def)
  have l: "length (collected (Evaluate shortFirst successFails ())) \<le> 1"
    by (simp add: successFails_def builder_defs resolveUser_def bob_def auditFails_def
          shortFirst_def evaluate_defs Let_def)
  note t = Evaluate_deterministic_up_to_fault_order [of shortFirst counted "()" longFirst]
  note u = Evaluate_deterministic_up_to_fault_order [of shortFirst successFails "()" longFirst]
  have a: "mset (collected (Evaluate shortFirst counted ()))
             = mset (collected (Evaluate longFirst counted ()))"
    using t by (rule conjunct1)
  have b: "result (Evaluate shortFirst counted ()) = result (Evaluate longFirst counted ())"
    by (rule t [THEN conjunct2, THEN conjunct2, THEN conjunct2, THEN conjunct1, THEN mp, OF g])
  have d: "Evaluate shortFirst successFails () = Evaluate longFirst successFails ()"
    by (rule u [THEN conjunct2, THEN conjunct2, THEN conjunct2, THEN conjunct2, THEN mp, OF l])
  show ?thesis
    by (intro conjI) (fact a c b l d)+
qed

text \<open>
  The claim as stated fails with the default handler when two policies fail: the
  combined error lists the faults in the order of the range.
\<close>

theorem default_handler_result_depends_on_range_order:
  "result (Evaluate shortFirst twoFailing ())
     = Return (Some ''user.last_name: no last nameuser.first_name: cannot be bob'')
   \<and> result (Evaluate longFirst twoFailing ())
     = Return (Some ''user.first_name: cannot be bobuser.last_name: no last name'')
   \<and> result (Evaluate shortFirst twoFailing ()) \<noteq> result (Evaluate longFirst twoFailing ())"
  by (simp add: twoFailing_def builder_defs resolveUser_def bob_def cannotBeBob_def
        needsLastName_def shortFirst_def longFirst_def evaluate_defs Let_def)

subsection \<open>No mask\<close>

lemma isFieldInMask_no_paths: "paths p = None \<Longrightarrow> isFieldInMask p pth = False"
  by (simp add: isFieldInMask_def)

lemma call_no_mask:
  assumes "paths p = None"
  shows "paths (fst (call p c)) = None"
    and "map (\<lambda>q. (path (tp_field q), inMask (tp_field q), tp_cond q (tp_field q)))
           (traitPolicies (pm (fst (call p c))))
         = map (\<lambda>q. (path (tp_field q), inMask (tp_field q), tp_cond q (tp_field q)))
             (traitPolicies (pm p))
           @ map (\<lambda>c. (callPath c, False, unconditional c)) (filter isTraitCall [c])"
    and "map (\<lambda>q. (path (ap_field q), inMask (ap_field q), ap_cond q (ap_field q)))
           (actionPolicies (pm (fst (call p c))))
         = map (\<lambda>q. (path (ap_field q), inMask (ap_field q), ap_cond q (ap_field q)))
             (actionPolicies (pm p))
           @ map (\<lambda>c. (callPath c, False, unconditional c)) (filter isActionCall [c])"
  using assms
  by (cases c;
      simp add: AssertNonZero_def AssertNonZeroWhenInMask_def AssertCustom_def
        AssertCustomWhenInMask_def BeforeValidation_def OnSuccess_def CustomFaultHandler_def
        isFieldInMask_no_paths NewField_def NewPolicy_def NewActionPolicy_def
        AddTraitPolicy_def AddActionPolicy_def MustBeSet_def MustBeSetIfInMask_def
        case_prod_unfold Let_def)+

lemma chain_no_mask:
  assumes "paths p = None"
  shows "paths (fst (chain p cs)) = None
         \<and> map (\<lambda>q. (path (tp_field q), inMask (tp_field q), tp_cond q (tp_field q)))
             (traitPolicies (pm (fst (chain p cs))))
           = map (\<lambda>q. (path (tp_field q), inMask (tp_field q), tp_cond q (tp_field q)))
               (traitPolicies (pm p))
             @ map (\<lambda>c. (callPath c, False, unconditional c)) (filter isTraitCall cs)
         \<and> map (\<lambda>q. (path (ap_field q), inMask (ap_field q), ap_cond q (ap_field q)))
             (actionPolicies (pm (fst (chain p cs))))
           = map (\<lambda>q. (path (ap_field q), inMask (ap_field q), ap_cond q (ap_field q)))
               (actionPolicies (pm p))
             @ map (\<lambda>c. (callPath c, False, unconditional c)) (filter isActionCall cs)"
  using assms
proof (induction cs arbitrary: p)
  case Nil
  then show ?case by simp
next
  case (Cons c cs)
  note step = call_no_mask [OF Cons.prems, of c]
  have e: "fst (chain p (c # cs)) = fst (chain (fst (call p c)) cs)"
    by (simp add: case_prod_unfold)
  show ?case
    unfolding e
    using Cons.IH [OF step(1)] step(2,3) by simp
qed

lemma ForSubject_no_mask:
  "paths (ForSubject fp msg []) = None"
  "traitPolicies (pm (ForSubject fp msg [])) = []"
  "actionPolicies (pm (ForSubject fp msg [])) = []"
  by (simp_all add: ForSubject_def getPathsFromMask_def NewPolicyManager_def)

lemma triggered_of_calls:
  "map (\<lambda>q. (f q, g q, h q)) qs = map (\<lambda>c. (f' c, g' c, h' c)) cs \<Longrightarrow>
     map (\<lambda>q. F (f q)) (filter h qs) = map (\<lambda>c. F (f' c)) (filter h' cs)"
  by (induction qs arbitrary: cs) auto

text \<open>
  C10. Take a Subject made by \<^verbatim>\<open>ForSubject\<close> with no mask paths and any chain of
  builder calls. No path is in its mask. Its rules are those the calls declared, in
  order, each at the path of its call, each with \<open>inMask\<close> false, and the trigger of a
  rule holds exactly when the rule was declared by \<^verbatim>\<open>AssertNonZero\<close> or
  \<^verbatim>\<open>AssertCustom\<close>: the trigger of a rule declared by \<^verbatim>\<open>AssertNonZeroWhenInMask\<close> or
  \<^verbatim>\<open>AssertCustomWhenInMask\<close> is false. In an evaluation the actions called are those
  declared by \<^verbatim>\<open>AssertCustom\<close>, and no other.
\<close>

theorem no_mask_rules_never_trigger:
  "\<not> isFieldInMask (fst (chain (ForSubject fp msg []) cs)) pth
   \<and> map (\<lambda>q. (path (tp_field q), inMask (tp_field q), tp_cond q (tp_field q)))
       (traitPolicies (pm (fst (chain (ForSubject fp msg []) cs))))
     = map (\<lambda>c. (callPath c, False, unconditional c)) (filter isTraitCall cs)
   \<and> map (\<lambda>q. (path (ap_field q), inMask (ap_field q), ap_cond q (ap_field q)))
       (actionPolicies (pm (fst (chain (ForSubject fp msg []) cs))))
     = map (\<lambda>c. (callPath c, False, unconditional c)) (filter isActionCall cs)
   \<and> filter isInvocation (trace (Evaluate rank (fst (chain (ForSubject fp msg []) cs)) ctx))
     = (if fst (init (fst (chain (ForSubject fp msg []) cs)) ctx) = None
        then map (\<lambda>c. ActionInvoked (callPath c))
               (filter (\<lambda>c. isActionCall c \<and> unconditional c) cs)
        else [])"
proof -
  let ?p = "fst (chain (ForSubject fp msg []) cs)"
  note inv = chain_no_mask [of "ForSubject fp msg []" cs, OF ForSubject_no_mask(1),
      unfolded ForSubject_no_mask(2,3) list.map append_Nil]
  have a: "\<not> isFieldInMask ?p pth"
    using inv by (simp add: isFieldInMask_no_paths)
  note t = inv [THEN conjunct2, THEN conjunct1]
  note c = inv [THEN conjunct2, THEN conjunct2]
  have "map (\<lambda>q. ActionInvoked (path (ap_field q)))
          (filter (\<lambda>q. ap_cond q (ap_field q)) (actionPolicies (pm ?p)))
        = map (\<lambda>c. ActionInvoked (callPath c)) (filter unconditional (filter isActionCall cs))"
    by (rule triggered_of_calls [OF c])
  also have "filter unconditional (filter isActionCall cs)
               = filter (\<lambda>c. isActionCall c \<and> unconditional c) cs"
    by (simp add: conj_commute)
  finally have e: "filter isInvocation (trace (Evaluate rank ?p ctx))
     = (if fst (init ?p ctx) = None
        then map (\<lambda>c. ActionInvoked (callPath c))
               (filter (\<lambda>c. isActionCall c \<and> unconditional c) cs)
        else [])"
    by (simp add: Evaluate_invocations)
  show ?thesis
    by (intro conjI) (fact a t c e)+
qed

end
